theory Spec2Isabelle
  imports Main
begin

section \<open>Python strings and the character classes of the \<open>re\<close> module\<close>

text \<open>
  A Python \<open>str\<close> is a sequence of Unicode code points, so it is modelled as a list of
  natural numbers. The curly quotes that \<open>clean_text\<close> is concerned with (U+2018, U+2019,
  U+201C, U+201D) lie outside the 8-bit range of HOL's \<open>char\<close>.
\<close>

type_synonym pystr = "nat list"

definition of_ascii :: "string \<Rightarrow> pystr" where
  "of_ascii s = map of_char s"

text \<open>
  \<open>\s\<close> in a \<open>str\<close> pattern and \<open>str.strip()\<close> use the same test: the code points for
  which \<open>str.isspace()\<close> holds.
\<close>

definition is_space :: "nat \<Rightarrow> bool" where
  "is_space c \<longleftrightarrow>
     (9 \<le> c \<and> c \<le> 13) \<or> (28 \<le> c \<and> c \<le> 32) \<or> c = 133 \<or> c = 160 \<or> c = 5760 \<or>
     (8192 \<le> c \<and> c \<le> 8202) \<or> c = 8232 \<or> c = 8233 \<or> c = 8239 \<or> c = 8287 \<or> c = 12288"

text \<open>
  \<open>\w\<close> and \<open>\d\<close> consult the Unicode database of the Python interpreter, which is not
  part of the repository. Both classes are fixed here on ASCII and take the database as a
  parameter for every code point from 128 on: \<open>alnum\<close> is the alphanumeric property,
  \<open>decimal\<close> the decimal-digit property.
\<close>

record unicode_db =
  alnum :: "nat \<Rightarrow> bool"
  decimal :: "nat \<Rightarrow> bool"

definition ascii_alnum :: "nat \<Rightarrow> bool" where
  "ascii_alnum c \<longleftrightarrow> (48 \<le> c \<and> c \<le> 57) \<or> (65 \<le> c \<and> c \<le> 90) \<or> (97 \<le> c \<and> c \<le> 122)"

definition is_digit :: "unicode_db \<Rightarrow> nat \<Rightarrow> bool" where
  "is_digit U c \<longleftrightarrow> (48 \<le> c \<and> c \<le> 57) \<or> (128 \<le> c \<and> decimal U c)"

definition is_word :: "unicode_db \<Rightarrow> nat \<Rightarrow> bool" where
  "is_word U c \<longleftrightarrow> c = 95 \<or> ascii_alnum c \<or> (128 \<le> c \<and> (alnum U c \<or> decimal U c))"

text \<open>
  The database restricted to the Latin-1 block, for concrete evaluations: letters, the
  superscript digits and the vulgar fractions of U+0080..U+00FF are alphanumeric, nothing
  from U+0100 on is. For the General Punctuation block U+2000..U+206F, where the curly
  quotes live, this is what Unicode says.
\<close>

definition latin1 :: unicode_db where
  "latin1 = \<lparr> alnum = (\<lambda>c. c = 170 \<or> c = 178 \<or> c = 179 \<or> c = 181 \<or> c = 185 \<or> c = 186 \<or>
                            (188 \<le> c \<and> c \<le> 190) \<or> (192 \<le> c \<and> c \<le> 214) \<or>
                            (216 \<le> c \<and> c \<le> 246) \<or> (248 \<le> c \<and> c \<le> 255)),
              decimal = (\<lambda>c. False) \<rparr>"

text \<open>\<open>str.strip()\<close>: leading and trailing whitespace removed.\<close>

definition py_strip :: "pystr \<Rightarrow> pystr" where
  "py_strip t = rev (dropWhile is_space (rev (dropWhile is_space t)))"

section \<open>TextChunker.clean_text\<close>

text \<open>
  \<open>re.sub(r'\s+', ' ', text)\<close>: every maximal run of whitespace becomes one space. The flag
  says that the previous character belonged to a run that has been replaced already.
\<close>

fun sub_ws :: "bool \<Rightarrow> pystr \<Rightarrow> pystr" where
  "sub_ws inrun [] = []"
| "sub_ws inrun (c # cs) =
     (if is_space c then (if inrun then sub_ws True cs else 32 # sub_ws True cs)
      else c # sub_ws False cs)"

text \<open>
  \<open>re.sub(r'^\d+\s*$', '', text, flags=re.MULTILINE)\<close>. With \<open>re.MULTILINE\<close> the anchors
  match at the ends of the text and next to a line feed (U+000A) only. The text this
  substitution receives comes out of \<open>sub_ws\<close> and holds no line feed (lemma
  \<open>sub_ws_no_newline\<close> below), so the pattern can only match the whole text: one or more
  digits followed by whitespace up to the end. The match is replaced by the empty string.
\<close>

definition page_number_only :: "unicode_db \<Rightarrow> pystr \<Rightarrow> bool" where
  "page_number_only U t \<longleftrightarrow>
     takeWhile (is_digit U) t \<noteq> [] \<and> list_all is_space (dropWhile (is_digit U) t)"

definition sub_page_numbers :: "unicode_db \<Rightarrow> pystr \<Rightarrow> pystr" where
  "sub_page_numbers U t = (if page_number_only U t then [] else t)"

text \<open>
  \<open>re.sub(r'[^\w\s\.\,\;\:\!\?\-\'\"]', ' ', text)\<close>: a character outside the class of word
  characters, whitespace and \<open>. , ; : ! ? - ' "\<close> becomes a space.
\<close>

definition allowed :: "unicode_db \<Rightarrow> nat \<Rightarrow> bool" where
  "allowed U c \<longleftrightarrow> is_word U c \<or> is_space c \<or>
     c = 46 \<or> c = 44 \<or> c = 59 \<or> c = 58 \<or> c = 33 \<or> c = 63 \<or> c = 45 \<or> c = 39 \<or> c = 34"

definition sub_artifacts :: "unicode_db \<Rightarrow> pystr \<Rightarrow> pystr" where
  "sub_artifacts U t = map (\<lambda>c. if allowed U c then c else 32) t"

text \<open>
  \<open>re.sub(r'["""]', '"', text)\<close> and \<open>re.sub(r"[''']", "'", text)\<close>. The character classes
  of the source file hold the straight double quote (U+0022) three times and the straight
  apostrophe (U+0027) three times, and nothing else.
\<close>

definition sub_double_quotes :: "pystr \<Rightarrow> pystr" where
  "sub_double_quotes t = map (\<lambda>c. if c = 34 then 34 else c) t"

definition sub_single_quotes :: "pystr \<Rightarrow> pystr" where
  "sub_single_quotes t = map (\<lambda>c. if c = 39 then 39 else c) t"

definition clean_text :: "unicode_db \<Rightarrow> pystr \<Rightarrow> pystr" where
  "clean_text U text0 =
     (let text1 = sub_ws False text0;
          text2 = sub_page_numbers U text1;
          text3 = sub_artifacts U text2;
          text4 = sub_double_quotes text3;
          text5 = sub_single_quotes text4
      in py_strip text5)"

text \<open>No two adjacent whitespace characters.\<close>

fun no_ws_run :: "pystr \<Rightarrow> bool" where
  "no_ws_run (a # b # cs) = (\<not> (is_space a \<and> is_space b) \<and> no_ws_run (b # cs))"
| "no_ws_run cs = True"

section \<open>TextChunker.split_into_sentences\<close>

text \<open>
  \<open>re.split(r'(?<=[.!?])\s+', text)\<close>: a separator is a maximal run of whitespace whose
  preceding character is one of \<open>. ! ?\<close>. \<open>piece\<close> is the part of the text since the last
  separator, \<open>skipping\<close> says that the scan is inside a separator.
\<close>

definition is_terminator :: "nat \<Rightarrow> bool" where
  "is_terminator c \<longleftrightarrow> c = 46 \<or> c = 33 \<or> c = 63"

fun re_split :: "pystr \<Rightarrow> bool \<Rightarrow> pystr \<Rightarrow> pystr list" where
  "re_split piece skipping [] = [piece]"
| "re_split piece skipping (c # cs) =
     (if is_space c \<and> skipping then re_split piece True cs
      else if is_space c \<and> piece \<noteq> [] \<and> is_terminator (last piece)
           then piece # re_split [] True cs
      else re_split (piece @ [c]) False cs)"

text \<open>\<open>[s.strip() for s in sentences if s.strip()]\<close>\<close>

definition split_into_sentences :: "pystr \<Rightarrow> pystr list" where
  "split_into_sentences t =
     map py_strip (filter (\<lambda>s. py_strip s \<noteq> []) (re_split [] False t))"

section \<open>TextChunker: configuration, token counter, chunk records\<close>

text \<open>
  The fields of a \<open>TextChunker\<close>. \<open>encoding\<close> is the tokenizer that \<open>tiktoken\<close> supplies
  for the embedding model; it lies outside the repository and is a parameter here: the
  function from a text to its list of token ids.
\<close>

record text_chunker =
  chunk_size :: int
  chunk_overlap :: int
  encoding :: "pystr \<Rightarrow> nat list"

text \<open>\<open>len(self.encoding.encode(text))\<close>\<close>

definition count_tokens :: "text_chunker \<Rightarrow> pystr \<Rightarrow> nat" where
  "count_tokens self t = length (encoding self t)"

text \<open>
  The dictionary appended to \<open>chunks\<close>. \<open>source_info\<close> is attached as it is, so its type is
  left open.
\<close>

record 'a chunk =
  "text" :: pystr
  token_count :: nat
  source :: 'a
  chunk_id :: nat

text \<open>The dictionary built at both places where \<open>create_chunks\<close> appends a chunk.\<close>

definition new_chunk :: "text_chunker \<Rightarrow> 'a \<Rightarrow> nat \<Rightarrow> pystr \<Rightarrow> 'a chunk" where
  "new_chunk self source_info n current =
     \<lparr> text = py_strip current, token_count = count_tokens self current,
       source = source_info, chunk_id = n \<rparr>"

section \<open>TextChunker.\_create\_overlap\<close>

text \<open>
  The loop over \<open>reversed(sentences)\<close>: \<open>overlap_text\<close> grows at the front while the token
  count of the candidate stays within \<open>chunk_overlap\<close>; the first candidate over the budget
  ends the loop (\<open>break\<close>). The variable \<open>overlap_tokens\<close> of the source is written and never
  read, and is left out.
\<close>

fun overlap_loop :: "text_chunker \<Rightarrow> pystr \<Rightarrow> pystr list \<Rightarrow> pystr" where
  "overlap_loop self overlap_text [] = overlap_text"
| "overlap_loop self overlap_text (sentence # rest) =
     (let potential_overlap =
            (if overlap_text \<noteq> [] then sentence @ [32] @ overlap_text else sentence)
      in if int (count_tokens self potential_overlap) \<le> chunk_overlap self
         then overlap_loop self potential_overlap rest
         else overlap_text)"

definition create_overlap :: "text_chunker \<Rightarrow> pystr list \<Rightarrow> pystr" where
  "create_overlap self sentences =
     (if sentences = [] then [] else py_strip (overlap_loop self [] (rev sentences)))"

section \<open>TextChunker.create\_chunks\<close>

text \<open>The three local variables of the loop.\<close>

record 'a builder =
  chunks :: "'a chunk list"
  current_chunk :: pystr
  current_sentences :: "pystr list"

definition potential_chunk :: "pystr \<Rightarrow> pystr \<Rightarrow> pystr" where
  "potential_chunk current sentence =
     (if current \<noteq> [] then current @ [32] @ sentence else sentence)"

definition restart_chunk :: "text_chunker \<Rightarrow> pystr list \<Rightarrow> pystr \<Rightarrow> pystr" where
  "restart_chunk self sentences sentence =
     (let overlap_text = create_overlap self sentences
      in if overlap_text \<noteq> [] then overlap_text @ [32] @ sentence else sentence)"

definition over_budget :: "text_chunker \<Rightarrow> pystr \<Rightarrow> pystr \<Rightarrow> bool" where
  "over_budget self current sentence \<longleftrightarrow>
     chunk_size self < int (count_tokens self (potential_chunk current sentence)) \<and> current \<noteq> []"

text \<open>One iteration of \<open>for sentence in sentences\<close>.\<close>

definition chunk_step :: "text_chunker \<Rightarrow> 'a \<Rightarrow> 'a builder \<Rightarrow> pystr \<Rightarrow> 'a builder" where
  "chunk_step self source_info st sentence =
     (if over_budget self (current_chunk st) sentence
      then \<lparr> chunks = chunks st @
                 [new_chunk self source_info (length (chunks st)) (current_chunk st)],
             current_chunk = restart_chunk self (current_sentences st) sentence,
             current_sentences = [sentence] \<rparr>
      else \<lparr> chunks = chunks st,
             current_chunk = potential_chunk (current_chunk st) sentence,
             current_sentences = current_sentences st @ [sentence] \<rparr>)"

text \<open>The final chunk, appended when the accumulated text is not blank.\<close>

definition finish :: "text_chunker \<Rightarrow> 'a \<Rightarrow> 'a builder \<Rightarrow> 'a chunk list" where
  "finish self source_info st =
     (if py_strip (current_chunk st) \<noteq> []
      then chunks st @ [new_chunk self source_info (length (chunks st)) (current_chunk st)]
      else chunks st)"

definition chunk_sentences :: "text_chunker \<Rightarrow> 'a \<Rightarrow> pystr list \<Rightarrow> 'a chunk list" where
  "chunk_sentences self source_info sentences =
     finish self source_info
       (foldl (chunk_step self source_info)
          \<lparr> chunks = [], current_chunk = [], current_sentences = [] \<rparr> sentences)"

definition create_chunks :: "text_chunker \<Rightarrow> unicode_db \<Rightarrow> pystr \<Rightarrow> 'a \<Rightarrow> 'a chunk list" where
  "create_chunks self U text0 source_info =
     chunk_sentences self source_info (split_into_sentences (clean_text U text0))"

subsection \<open>The same loop with a record of what each chunk was built from\<close>

text \<open>
  A chunk dictionary does not say which sentences went into it. The function below runs
  the loop of \<open>create_chunks\<close> and stores, next to every chunk it emits, the value that
  \<open>current_sentences\<close> has at that moment (the sentences newly consumed by the chunk) and
  the overlap text the chunk was started with. \<open>create_chunks_log_chunks\<close> shows that
  the chunks themselves are those of \<open>create_chunks\<close>.
\<close>

record 'a logged =
  chunk_of :: "'a chunk"
  overlap_of :: pystr
  consumed :: "pystr list"

fun log_loop ::
  "text_chunker \<Rightarrow> 'a \<Rightarrow> nat \<Rightarrow> pystr \<Rightarrow> pystr \<Rightarrow> pystr list \<Rightarrow> pystr list \<Rightarrow> 'a logged list"
where
  "log_loop self source_info n ov current sents [] =
     (if py_strip current \<noteq> []
      then [\<lparr> chunk_of = new_chunk self source_info n current,
              overlap_of = ov, consumed = sents \<rparr>]
      else [])"
| "log_loop self source_info n ov current sents (sentence # rest) =
     (if over_budget self current sentence
      then \<lparr> chunk_of = new_chunk self source_info n current,
             overlap_of = ov, consumed = sents \<rparr>
           # log_loop self source_info (Suc n) (create_overlap self sents)
               (restart_chunk self sents sentence) [sentence] rest
      else log_loop self source_info n ov (potential_chunk current sentence)
             (sents @ [sentence]) rest)"

definition create_chunks_log ::
  "text_chunker \<Rightarrow> unicode_db \<Rightarrow> pystr \<Rightarrow> 'a \<Rightarrow> 'a logged list" where
  "create_chunks_log self U text0 source_info =
     log_loop self source_info 0 [] [] [] (split_into_sentences (clean_text U text0))"

text \<open>Sentences joined by single spaces, as the loop joins them.\<close>

fun join_sp :: "pystr list \<Rightarrow> pystr" where
  "join_sp [] = []"
| "join_sp [s] = s"
| "join_sp (s # ss) = s @ [32] @ join_sp ss"

text \<open>
  A stand-in tokenizer for concrete evaluations; it is not the tokenizer of the embedding
  model. A token starts at every whitespace character, at every punctuation character
  that does not follow whitespace, and at the first character of every alphanumeric run
  that does not follow whitespace: on single-spaced words and full stops this is one token
  per word and one per full stop, and every non-empty text has at least one token.
  \<open>prev\<close> is the preceding character.
\<close>

fun toy_encode :: "nat \<Rightarrow> pystr \<Rightarrow> nat list" where
  "toy_encode prev [] = []"
| "toy_encode prev (c # cs) =
     (if is_space c \<or> (\<not> is_space prev \<and> \<not> (ascii_alnum c \<and> ascii_alnum prev))
      then c # toy_encode c cs else toy_encode c cs)"

definition toy_chunker :: "int \<Rightarrow> int \<Rightarrow> text_chunker" where
  "toy_chunker n m = \<lparr> chunk_size = n, chunk_overlap = m, encoding = toy_encode 46 \<rparr>"

section \<open>EmbeddingService.generate\_embeddings\_batch\<close>

text \<open>
  \<open>self.client.embeddings.create(model=..., input=batch)\<close> is a call to a remote service:
  a parameter \<open>create\<close>, where \<open>create i batch\<close> is what the call made in the iteration with
  index \<open>i\<close> yields: the embeddings of \<open>response.data\<close>, or \<open>None\<close> when the call raises.
  The service may answer the same batch differently in different iterations. An embedding
  is a list of numbers of an open type.

  \<open>for i in range(0, len(texts), batch_size)\<close> with a positive step: \<open>i\<close> starts at 0 and
  grows by \<open>batch_size\<close> while it is below \<open>len(texts)\<close>.
\<close>

datatype py_error = ValueError

function batch_loop ::
  "(nat \<Rightarrow> pystr list \<Rightarrow> 'f list list option) \<Rightarrow> pystr list \<Rightarrow> nat \<Rightarrow> nat \<Rightarrow> 'f list list
     \<Rightarrow> 'f list list"
where
  "batch_loop create texts batch_size i embeddings =
     (if 0 < batch_size \<and> i < length texts
      then (let batch = take batch_size (drop i texts)
            in batch_loop create texts batch_size (i + batch_size)
                 (embeddings @
                    (case create i batch of
                       Some batch_embeddings \<Rightarrow> batch_embeddings
                     | None \<Rightarrow> map (\<lambda>_. []) batch)))
      else embeddings)"
  by pat_completeness auto
termination
  by (relation "measure (\<lambda>(create, texts, batch_size, i, embeddings). length texts - i)") auto

declare batch_loop.simps [simp del]

text \<open>
  \<open>range\<close> raises \<open>ValueError\<close> for a step of zero, outside the \<open>try\<close>; for a negative step
  and a start of 0 it is empty, and the function returns the empty list.
\<close>

definition generate_embeddings_batch ::
  "(nat \<Rightarrow> pystr list \<Rightarrow> 'f list list option) \<Rightarrow> pystr list \<Rightarrow> int
     \<Rightarrow> py_error + 'f list list"
where
  "generate_embeddings_batch create texts batch_size =
     (if batch_size = 0 then Inl ValueError
      else if batch_size < 0 then Inr []
      else Inr (batch_loop create texts (nat batch_size) 0 []))"

section \<open>Predicates used in the statements\<close>

text \<open>
  The iteration of the batch loop that handles the text at position \<open>k\<close>: its index \<open>i\<close>,
  and its batch \<open>texts[i:i + batch_size]\<close>.
\<close>

definition call_of :: "nat \<Rightarrow> nat \<Rightarrow> nat" where
  "call_of batch_size k = k div batch_size * batch_size"

definition batch_of :: "nat \<Rightarrow> pystr list \<Rightarrow> nat \<Rightarrow> pystr list" where
  "batch_of batch_size texts k = take batch_size (drop (call_of batch_size k) texts)"

text \<open>A text that \<open>strip()\<close> leaves as it is: empty, or with no whitespace at either end.\<close>

definition trimmed :: "pystr \<Rightarrow> bool" where
  "trimmed t \<longleftrightarrow> t = [] \<or> (\<not> is_space (hd t) \<and> \<not> is_space (last t))"

definition blank :: "pystr \<Rightarrow> bool" where
  "blank t \<longleftrightarrow> list_all is_space t"

text \<open>The text of a chunk that starts with overlap text \<open>ov\<close> and goes on with \<open>body\<close>.\<close>

definition with_overlap :: "pystr \<Rightarrow> pystr \<Rightarrow> pystr" where
  "with_overlap ov body = (if ov \<noteq> [] then ov @ [32] @ body else body)"

text \<open>
  The budget property in the words of the specification: the token count is within
  \<open>chunk_size\<close>, or the chunk is one of the sentences and that sentence is over the budget
  by itself.
\<close>

definition within_budget :: "text_chunker \<Rightarrow> pystr list \<Rightarrow> 'a chunk \<Rightarrow> bool" where
  "within_budget self sentences c \<longleftrightarrow>
     int (token_count c) \<le> chunk_size self \<or>
     (text c \<in> set sentences \<and> chunk_size self < int (count_tokens self (text c)))"

text \<open>What holds between the loop variables of \<open>create_chunks\<close> before every iteration.\<close>

definition loop_inv :: "pystr \<Rightarrow> pystr \<Rightarrow> pystr list \<Rightarrow> bool" where
  "loop_inv ov current sents \<longleftrightarrow>
     (sents = [] \<and> current = [] \<and> ov = []) \<or>
     (sents \<noteq> [] \<and> (\<forall>s \<in> set sents. s \<noteq> [] \<and> trimmed s) \<and> trimmed ov \<and>
      current = with_overlap ov (join_sp sents))"

text \<open>
  What holds of every logged chunk: its text is the overlap it started with followed by
  the sentences it consumed, there is at least one such sentence, and the stored token
  count is the count of the stored text.
\<close>

definition entry_ok :: "text_chunker \<Rightarrow> 'a logged \<Rightarrow> bool" where
  "entry_ok self e \<longleftrightarrow>
     loop_inv (overlap_of e) (text (chunk_of e)) (consumed e) \<and> consumed e \<noteq> [] \<and>
     token_count (chunk_of e) = count_tokens self (text (chunk_of e))"

section \<open>Facts about \<open>strip\<close>, joining and the overlap\<close>

lemma py_strip_trimmed: "trimmed (py_strip t)"
proof -
  let ?u = "dropWhile is_space t"
  let ?v = "dropWhile is_space (rev ?u)"
  show ?thesis
  proof (cases "?v = []")
    case True
    then show ?thesis by (simp add: trimmed_def py_strip_def)
  next
    case False
    have h: "\<not> is_space (hd ?v)" by (rule hd_dropWhile[OF False])
    have u: "?u \<noteq> []" using False by (metis dropWhile.simps(1) rev.simps(1))
    have hu: "\<not> is_space (hd ?u)" by (rule hd_dropWhile[OF u])
    have "rev ?u = takeWhile is_space (rev ?u) @ ?v" by simp
    then have "?u = rev ?v @ rev (takeWhile is_space (rev ?u))"
      by (metis rev_append rev_rev_ident)
    then have "hd ?u = hd (rev ?v)" using False by (metis hd_append2 rev_is_Nil_conv)
    with hu h False show ?thesis
      by (simp add: trimmed_def py_strip_def last_rev)
  qed
qed

lemma trimmed_strip: "trimmed t \<Longrightarrow> py_strip t = t"
proof (cases "t = []")
  case True
  then show ?thesis by (simp add: py_strip_def)
next
  case False
  assume "trimmed t"
  with False have a: "\<not> is_space (hd t)" and b: "\<not> is_space (last t)"
    by (simp_all add: trimmed_def)
  from False a have 1: "dropWhile is_space t = t" by (cases t) auto
  from False b have "\<not> is_space (hd (rev t))" by (simp add: hd_rev)
  with False have 2: "dropWhile is_space (rev t) = rev t" by (cases "rev t") auto
  show ?thesis by (simp add: py_strip_def 1 2)
qed

lemma py_strip_Nil_iff: "py_strip t = [] \<longleftrightarrow> blank t"
proof -
  have "py_strip t = [] \<longleftrightarrow> (\<forall>x\<in>set (dropWhile is_space t). is_space x)"
    by (simp add: py_strip_def dropWhile_eq_Nil_conv)
  also have "\<dots> \<longleftrightarrow> dropWhile is_space t = []"
    by (metis hd_dropWhile hd_in_set empty_iff list.set(1))
  also have "\<dots> \<longleftrightarrow> blank t"
    by (simp add: blank_def list_all_iff dropWhile_eq_Nil_conv)
  finally show ?thesis .
qed

lemma trimmed_Nil: "trimmed []"
  by (simp add: trimmed_def)

lemma trimmed_join: "trimmed a \<Longrightarrow> trimmed b \<Longrightarrow> a \<noteq> [] \<Longrightarrow> b \<noteq> [] \<Longrightarrow> trimmed (a @ 32 # b)"
  by (simp add: trimmed_def)

lemma split_sentences_good: "s \<in> set (split_into_sentences t) \<Longrightarrow> s \<noteq> [] \<and> trimmed s"
  by (auto simp: split_into_sentences_def py_strip_trimmed)

lemma trimmed_not_blank: "trimmed t \<Longrightarrow> t \<noteq> [] \<Longrightarrow> \<not> blank t"
  by (cases t) (auto simp: trimmed_def blank_def)

lemma join_sp_snoc: "ss \<noteq> [] \<Longrightarrow> join_sp (ss @ [s]) = join_sp ss @ [32] @ s"
  by (induction ss rule: join_sp.induct) auto

lemma join_sp_good: "ss \<noteq> [] \<Longrightarrow> \<forall>s\<in>set ss. s \<noteq> [] \<and> trimmed s \<Longrightarrow> join_sp ss \<noteq> [] \<and> trimmed (join_sp ss)"
proof (induction ss rule: join_sp.induct)
  case (3 s v va)
  then have "join_sp (v # va) \<noteq> [] \<and> trimmed (join_sp (v # va))" by simp
  moreover from 3 have "s \<noteq> [] \<and> trimmed s" by simp
  ultimately show ?case using trimmed_join[of s "join_sp (v # va)"] by simp
qed simp_all

lemma with_overlap_good:
  "trimmed ov \<Longrightarrow> trimmed b \<Longrightarrow> b \<noteq> [] \<Longrightarrow> with_overlap ov b \<noteq> [] \<and> trimmed (with_overlap ov b)"
  using trimmed_join[of ov b] by (simp add: with_overlap_def)

lemma loop_inv_current:
  "loop_inv ov current sents \<Longrightarrow> trimmed current \<and> (current = [] \<longleftrightarrow> sents = [])"
  unfolding loop_inv_def using join_sp_good[of sents] with_overlap_good[of ov "join_sp sents"]
  by (auto simp: trimmed_Nil)

lemma overlap_loop_trimmed:
  "trimmed ov \<Longrightarrow> \<forall>s\<in>set ss. s \<noteq> [] \<and> trimmed s \<Longrightarrow> trimmed (overlap_loop self ov ss)"
proof (induction ss arbitrary: ov)
  case Nil
  then show ?case by simp
next
  case (Cons s ss)
  then have "trimmed (if ov \<noteq> [] then s @ [32] @ ov else s)"
    using trimmed_join[of s ov] by simp
  with Cons show ?case by (simp add: Let_def)
qed

lemma overlap_loop_bound:
  "overlap_loop self ov ss = ov \<or> int (count_tokens self (overlap_loop self ov ss)) \<le> chunk_overlap self"
proof (induction ss arbitrary: ov)
  case Nil
  then show ?case by simp
next
  case (Cons s ss)
  let ?p = "if ov \<noteq> [] then s @ [32] @ ov else s"
  show ?case
  proof (cases "int (count_tokens self ?p) \<le> chunk_overlap self")
    case True
    with Cons[of ?p] show ?thesis by (auto simp: Let_def)
  next
    case False
    then show ?thesis by (simp add: Let_def)
  qed
qed

lemma create_overlap_trimmed:
  "\<forall>s\<in>set ss. s \<noteq> [] \<and> trimmed s \<Longrightarrow> trimmed (create_overlap self ss)"
  by (simp add: create_overlap_def py_strip_trimmed trimmed_Nil)

lemma create_overlap_eq:
  "\<forall>s\<in>set ss. s \<noteq> [] \<and> trimmed s \<Longrightarrow> create_overlap self ss = overlap_loop self [] (rev ss)"
  using overlap_loop_trimmed[of "[]" "rev ss" self]
  by (simp add: create_overlap_def trimmed_strip trimmed_Nil)

lemma create_overlap_bound:
  assumes "\<forall>s\<in>set ss. s \<noteq> [] \<and> trimmed s"
  shows "create_overlap self ss = [] \<or> int (count_tokens self (create_overlap self ss)) \<le> chunk_overlap self"
  using overlap_loop_bound[of self "[]" "rev ss"] create_overlap_eq[OF assms, of self] by auto

lemma create_overlap_zero:
  assumes "\<forall>s\<in>set ss. s \<noteq> [] \<and> trimmed s" and "chunk_overlap self = 0"
    and "\<forall>t. t \<noteq> [] \<longrightarrow> encoding self t \<noteq> []"
  shows "create_overlap self ss = []"
proof -
  have "overlap_loop self [] rs = []" if "\<forall>s\<in>set rs. s \<noteq> []" for rs
    using that assms(2,3) by (cases rs) (auto simp: Let_def count_tokens_def)
  with assms(1) create_overlap_eq[OF assms(1), of self] show ?thesis by simp
qed

section \<open>Facts about \<open>clean_text\<close>\<close>

lemmas eval_defs = clean_text_def sub_page_numbers_def page_number_only_def is_digit_def
  is_space_def sub_artifacts_def allowed_def is_word_def ascii_alnum_def latin1_def
  sub_double_quotes_def sub_single_quotes_def py_strip_def of_ascii_def
  split_into_sentences_def is_terminator_def create_chunks_def chunk_sentences_def
  chunk_step_def finish_def over_budget_def potential_chunk_def restart_chunk_def
  create_overlap_def new_chunk_def count_tokens_def toy_chunker_def create_chunks_log_def

lemma sub_ws_chars: "set (sub_ws b t) \<subseteq> insert 32 (set t)"
  by (induction t arbitrary: b) auto

lemma sub_ws_no_newline: "10 \<notin> set (sub_ws b t)"
  by (induction t arbitrary: b) (auto simp: is_space_def)

lemma space_32: "is_space 32"
  by (simp add: is_space_def)

lemma sub_ws_no_run:
  "no_ws_run (sub_ws b t) \<and> (b \<longrightarrow> sub_ws b t = [] \<or> \<not> is_space (hd (sub_ws b t)))"
proof (induction t arbitrary: b)
  case Nil
  then show ?case by simp
next
  case (Cons c cs)
  show ?case
  proof (cases "is_space c")
    case True
    from Cons[of True] show ?thesis using True
      by (cases "sub_ws True cs") auto
  next
    case False
    from Cons[of False] show ?thesis using False
      by (cases "sub_ws False cs") auto
  qed
qed

lemma no_ws_run_append: "no_ws_run (xs @ ys) \<Longrightarrow> no_ws_run xs \<and> no_ws_run ys"
  apply (induction xs rule: no_ws_run.induct)
    apply auto[1]
   apply simp
  apply (cases ys)
   apply auto
  done

lemma no_ws_run_strip: "no_ws_run t \<Longrightarrow> no_ws_run (py_strip t)"
proof -
  assume a: "no_ws_run t"
  let ?u = "dropWhile is_space t"
  have "t = takeWhile is_space t @ ?u" by simp
  with a have u: "no_ws_run ?u" using no_ws_run_append by metis
  have "rev ?u = takeWhile is_space (rev ?u) @ dropWhile is_space (rev ?u)" by simp
  then have "?u = py_strip t @ rev (takeWhile is_space (rev ?u))"
    unfolding py_strip_def by (metis rev_append rev_rev_ident)
  with u show ?thesis using no_ws_run_append by metis
qed

lemma sub_artifacts_id: "\<forall>c\<in>set t. allowed U c \<Longrightarrow> sub_artifacts U t = t"
  by (simp add: sub_artifacts_def map_idI)

lemma sub_quotes_id: "sub_double_quotes t = t" "sub_single_quotes t = t"
  by (simp_all add: sub_double_quotes_def sub_single_quotes_def map_idI)

lemma allowed_32: "allowed U 32"
  by (simp add: allowed_def is_space_def)

lemma clean_text_trimmed: "trimmed (clean_text U t)"
  by (simp add: clean_text_def py_strip_trimmed)

lemma sub_ws_blank_True: "blank t \<Longrightarrow> sub_ws True t = []"
  by (induction t) (auto simp: blank_def)

lemma sub_ws_blank: "blank t \<Longrightarrow> sub_ws False t = [] \<or> sub_ws False t = [32]"
  using sub_ws_blank_True[of "tl t"] by (cases t) (auto simp: blank_def)

lemma clean_text_blank: "blank t \<Longrightarrow> clean_text U t = []"
proof -
  assume "blank t"
  then have "sub_ws False t = [] \<or> sub_ws False t = [32]" by (rule sub_ws_blank)
  then show ?thesis
    by (auto simp: clean_text_def sub_page_numbers_def page_number_only_def is_digit_def
        sub_artifacts_def allowed_def is_space_def sub_quotes_id py_strip_def)
qed

lemma split_Nil: "split_into_sentences [] = []"
  by (simp add: split_into_sentences_def py_strip_def)

section \<open>Facts about the loop of \<open>create_chunks\<close>\<close>

lemma log_loop_chunks:
  "chunks st @ map chunk_of (log_loop self src (length (chunks st)) ov (current_chunk st)
       (current_sentences st) rest)
   = finish self src (foldl (chunk_step self src) st rest)"
proof (induction rest arbitrary: st ov)
  case Nil
  then show ?case by (simp add: finish_def)
next
  case (Cons s rest)
  show ?case
  proof (cases "over_budget self (current_chunk st) s")
    case True
    let ?st = "chunk_step self src st s"
    have "chunks ?st = chunks st @ [new_chunk self src (length (chunks st)) (current_chunk st)]"
      and "current_chunk ?st = restart_chunk self (current_sentences st) s"
      and "current_sentences ?st = [s]"
      using True by (simp_all add: chunk_step_def)
    with Cons[of ?st "create_overlap self (current_sentences st)"] True
    show ?thesis by simp
  next
    case False
    let ?st = "chunk_step self src st s"
    have "chunks ?st = chunks st"
      and "current_chunk ?st = potential_chunk (current_chunk st) s"
      and "current_sentences ?st = current_sentences st @ [s]"
      using False by (simp_all add: chunk_step_def)
    with Cons[of ?st ov] False show ?thesis by simp
  qed
qed

lemma create_chunks_log_chunks:
  "map chunk_of (create_chunks_log self U t src) = create_chunks self U t src"
  using log_loop_chunks[of "\<lparr> chunks = [], current_chunk = [], current_sentences = [] \<rparr>"
      self src "[]" "split_into_sentences (clean_text U t)"]
  by (simp add: create_chunks_log_def create_chunks_def chunk_sentences_def)

lemma loop_inv_init: "loop_inv [] [] []"
  by (simp add: loop_inv_def)

lemma loop_inv_else:
  assumes "loop_inv ov current sents" and "s \<noteq> []" and "trimmed s"
  shows "loop_inv ov (potential_chunk current s) (sents @ [s])"
proof (cases "sents = []")
  case True
  with assms show ?thesis
    by (auto simp: loop_inv_def potential_chunk_def with_overlap_def trimmed_Nil)
next
  case False
  with assms(1) have c: "current = with_overlap ov (join_sp sents)" and t: "trimmed ov"
    and g: "\<forall>s\<in>set sents. s \<noteq> [] \<and> trimmed s"
    by (auto simp: loop_inv_def)
  from loop_inv_current[OF assms(1)] False have "current \<noteq> []" by simp
  with c have "potential_chunk current s = with_overlap ov (join_sp (sents @ [s]))"
    using False by (simp add: potential_chunk_def with_overlap_def join_sp_snoc)
  with g t assms(2,3) show ?thesis by (simp add: loop_inv_def)
qed

lemma loop_inv_then:
  assumes "\<forall>x\<in>set sents. x \<noteq> [] \<and> trimmed x" and "s \<noteq> []" and "trimmed s"
  shows "loop_inv (create_overlap self sents) (restart_chunk self sents s) [s]"
  using assms create_overlap_trimmed[OF assms(1), of self]
  by (simp add: loop_inv_def restart_chunk_def with_overlap_def Let_def)

lemma loop_inv_sents: "loop_inv ov current sents \<Longrightarrow> \<forall>x\<in>set sents. x \<noteq> [] \<and> trimmed x"
  by (auto simp: loop_inv_def)

lemma new_chunk_entry:
  assumes "loop_inv ov current sents" and "current \<noteq> []"
  shows "entry_ok self \<lparr> chunk_of = new_chunk self src n current, overlap_of = ov, consumed = sents \<rparr>"
proof -
  from loop_inv_current[OF assms(1)] assms(2) have "py_strip current = current" "sents \<noteq> []"
    by (simp_all add: trimmed_strip)
  with assms(1) show ?thesis by (simp add: entry_ok_def new_chunk_def)
qed

lemma log_loop_entries:
  "loop_inv ov current sents \<Longrightarrow> \<forall>s\<in>set rest. s \<noteq> [] \<and> trimmed s \<Longrightarrow>
   e \<in> set (log_loop self src n ov current sents rest) \<Longrightarrow> entry_ok self e"
proof (induction rest arbitrary: n ov current sents)
  case Nil
  show ?case
  proof (cases "py_strip current = []")
    case True
    with Nil(3) show ?thesis by simp
  next
    case False
    then have "current \<noteq> []" by (auto simp: py_strip_def)
    from new_chunk_entry[OF Nil(1) this, of self src n] Nil(3) False show ?thesis by simp
  qed
next
  case (Cons s rest)
  from Cons.prems(2) have s: "s \<noteq> []" "trimmed s" and r: "\<forall>s\<in>set rest. s \<noteq> [] \<and> trimmed s"
    by simp_all
  show ?case
  proof (cases "over_budget self current s")
    case True
    then have "current \<noteq> []" by (simp add: over_budget_def)
    note ne = new_chunk_entry[OF Cons.prems(1) this, of self src n]
    from Cons.prems(3) True consider
      "e = \<lparr> chunk_of = new_chunk self src n current, overlap_of = ov, consumed = sents \<rparr>"
      | "e \<in> set (log_loop self src (Suc n) (create_overlap self sents)
               (restart_chunk self sents s) [s] rest)"
      by auto
    then show ?thesis
    proof cases
      case 1
      with ne show ?thesis by simp
    next
      case 2
      from Cons.IH[OF loop_inv_then[OF loop_inv_sents[OF Cons.prems(1)] s] r 2]
      show ?thesis .
    qed
  next
    case False
    with Cons.prems(3) have "e \<in> set (log_loop self src n ov (potential_chunk current s) (sents @ [s]) rest)"
      by simp
    from Cons.IH[OF loop_inv_else[OF Cons.prems(1) s] r this] show ?thesis .
  qed
qed

lemma log_loop_concat:
  "loop_inv ov current sents \<Longrightarrow> \<forall>s\<in>set rest. s \<noteq> [] \<and> trimmed s \<Longrightarrow>
   concat (map consumed (log_loop self src n ov current sents rest)) = sents @ rest"
proof (induction rest arbitrary: n ov current sents)
  case Nil
  from loop_inv_current[OF Nil(1)] have "py_strip current = current" "current = [] \<longleftrightarrow> sents = []"
    by (simp_all add: trimmed_strip)
  then show ?case by simp
next
  case (Cons s rest)
  from Cons.prems(2) have s: "s \<noteq> []" "trimmed s" and r: "\<forall>s\<in>set rest. s \<noteq> [] \<and> trimmed s"
    by simp_all
  show ?case
  proof (cases "over_budget self current s")
    case True
    from Cons.IH[OF loop_inv_then[OF loop_inv_sents[OF Cons.prems(1)] s] r] True
    show ?thesis by simp
  next
    case False
    from Cons.IH[OF loop_inv_else[OF Cons.prems(1) s] r] False
    show ?thesis by simp
  qed
qed

lemma log_loop_Nil_iff:
  "loop_inv ov current sents \<Longrightarrow> \<forall>s\<in>set rest. s \<noteq> [] \<and> trimmed s \<Longrightarrow>
   log_loop self src n ov current sents rest = [] \<longleftrightarrow> sents = [] \<and> rest = []"
proof (induction rest arbitrary: n ov current sents)
  case Nil
  from loop_inv_current[OF Nil(1)] have "py_strip current = current" "current = [] \<longleftrightarrow> sents = []"
    by (simp_all add: trimmed_strip)
  then show ?case by simp
next
  case (Cons s rest)
  from Cons.prems(2) have s: "s \<noteq> []" "trimmed s" and r: "\<forall>s\<in>set rest. s \<noteq> [] \<and> trimmed s"
    by simp_all
  show ?case
  proof (cases "over_budget self current s")
    case True
    then show ?thesis by simp
  next
    case False
    from Cons.IH[OF loop_inv_else[OF Cons.prems(1) s] r] False
    show ?thesis by simp
  qed
qed

lemma log_loop_budget:
  "loop_inv ov current sents \<Longrightarrow> \<forall>s\<in>set rest. s \<noteq> [] \<and> trimmed s \<Longrightarrow>
   current = [] \<or> int (count_tokens self current) \<le> chunk_size self \<or> length sents = 1 \<Longrightarrow>
   e \<in> set (log_loop self src n ov current sents rest) \<Longrightarrow>
   int (token_count (chunk_of e)) \<le> chunk_size self \<or> length (consumed e) = 1"
proof (induction rest arbitrary: n ov current sents)
  case Nil
  show ?case
  proof (cases "py_strip current = []")
    case True
    with Nil(4) show ?thesis by simp
  next
    case False
    then have "current \<noteq> []" by (auto simp: py_strip_def)
    with Nil(3,4) False show ?thesis by (auto simp: new_chunk_def)
  qed
next
  case (Cons s rest)
  from Cons.prems(2) have s: "s \<noteq> []" "trimmed s" and r: "\<forall>s\<in>set rest. s \<noteq> [] \<and> trimmed s"
    by simp_all
  show ?case
  proof (cases "over_budget self current s")
    case True
    then have ne: "current \<noteq> []" by (simp add: over_budget_def)
    from Cons.prems(4) True consider
      "e = \<lparr> chunk_of = new_chunk self src n current, overlap_of = ov, consumed = sents \<rparr>"
      | "e \<in> set (log_loop self src (Suc n) (create_overlap self sents)
               (restart_chunk self sents s) [s] rest)"
      by auto
    then show ?thesis
    proof cases
      case 1
      with Cons.prems(3) ne show ?thesis by (auto simp: new_chunk_def)
    next
      case 2
      from Cons.IH[OF loop_inv_then[OF loop_inv_sents[OF Cons.prems(1)] s] r _ 2]
      show ?thesis by simp
    qed
  next
    case False
    with Cons.prems(4) have m: "e \<in> set (log_loop self src n ov (potential_chunk current s) (sents @ [s]) rest)"
      by simp
    from loop_inv_current[OF Cons.prems(1)] have cs: "current = [] \<longleftrightarrow> sents = []" by simp
    from False cs have "int (count_tokens self (potential_chunk current s)) \<le> chunk_size self
        \<or> length (sents @ [s]) = 1"
      by (auto simp: over_budget_def)
    then have "potential_chunk current s = [] \<or>
       int (count_tokens self (potential_chunk current s)) \<le> chunk_size self \<or> length (sents @ [s]) = 1"
      by blast
    from Cons.IH[OF loop_inv_else[OF Cons.prems(1) s] r this m] show ?thesis .
  qed
qed

lemma log_loop_hd:
  "log_loop self src n ov current sents rest \<noteq> [] \<Longrightarrow>
   overlap_of (hd (log_loop self src n ov current sents rest)) = ov"
  by (induction rest arbitrary: n ov current sents) (auto split: if_splits)

lemma log_loop_chain:
  "(a, b) \<in> set (zip (log_loop self src n ov current sents rest)
                     (tl (log_loop self src n ov current sents rest))) \<Longrightarrow>
   overlap_of b = create_overlap self (consumed a)"
proof (induction rest arbitrary: n ov current sents)
  case Nil
  then show ?case by (simp split: if_splits)
next
  case (Cons s rest)
  show ?case
  proof (cases "over_budget self current s")
    case True
    let ?L = "log_loop self src (Suc n) (create_overlap self sents) (restart_chunk self sents s) [s] rest"
    let ?e = "\<lparr> chunk_of = new_chunk self src n current, overlap_of = ov, consumed = sents \<rparr>"
    from Cons.prems True have m: "(a, b) \<in> set (zip (?e # ?L) ?L)" by simp
    show ?thesis
    proof (cases ?L)
      case Nil
      with m show ?thesis by simp
    next
      case (Cons x xs)
      with m have "(a, b) = (?e, hd ?L) \<or> (a, b) \<in> set (zip ?L (tl ?L))" by auto
      then show ?thesis
      proof
        assume "(a, b) = (?e, hd ?L)"
        then show ?thesis using log_loop_hd[of self src "Suc n" "create_overlap self sents"
              "restart_chunk self sents s" "[s]" rest] Cons by simp
      next
        assume "(a, b) \<in> set (zip ?L (tl ?L))"
        then show ?thesis by (rule Cons.IH)
      qed
    qed
  next
    case False
    with Cons.prems show ?thesis using Cons.IH by simp
  qed
qed

section \<open>A worked example\<close>

text \<open>
  The text \<open>One two. Three four five.\<close> has two sentences, of 3 and 4 tokens. With
  \<open>chunk_size = 5\<close> the second sentence does not fit into the first chunk.
\<close>

lemma sentences_good:
  "\<forall>s\<in>set (split_into_sentences u). s \<noteq> [] \<and> trimmed s"
  using split_sentences_good by blast

lemma ex_sentences:
  "split_into_sentences (clean_text latin1 (of_ascii ''One two. Three four five.'')) =
     [of_ascii ''One two.'', of_ascii ''Three four five.'']"
  by (simp add: eval_defs)

lemma ex_log_5_3:
  "create_chunks_log (toy_chunker 5 3) latin1 (of_ascii ''One two. Three four five.'') () =
     [\<lparr> chunk_of = \<lparr> text = of_ascii ''One two.'', token_count = 3, source = (), chunk_id = 0 \<rparr>,
         overlap_of = [], consumed = [of_ascii ''One two.''] \<rparr>,
      \<lparr> chunk_of = \<lparr> text = of_ascii ''One two. Three four five.'', token_count = 7,
                      source = (), chunk_id = 1 \<rparr>,
         overlap_of = of_ascii ''One two.'', consumed = [of_ascii ''Three four five.''] \<rparr>]"
  by (simp add: eval_defs)

lemma ex_log_5_0:
  "create_chunks_log (toy_chunker 5 0) latin1 (of_ascii ''One two. Three four five.'') () =
     [\<lparr> chunk_of = \<lparr> text = of_ascii ''One two.'', token_count = 3, source = (), chunk_id = 0 \<rparr>,
         overlap_of = [], consumed = [of_ascii ''One two.''] \<rparr>,
      \<lparr> chunk_of = \<lparr> text = of_ascii ''Three four five.'', token_count = 4,
                      source = (), chunk_id = 1 \<rparr>,
         overlap_of = [], consumed = [of_ascii ''Three four five.''] \<rparr>]"
  by (simp add: eval_defs)

lemma ex_chunks_5_3:
  "create_chunks (toy_chunker 5 3) latin1 (of_ascii ''One two. Three four five.'') () =
     [\<lparr> text = of_ascii ''One two.'', token_count = 3, source = (), chunk_id = 0 \<rparr>,
      \<lparr> text = of_ascii ''One two. Three four five.'', token_count = 7,
         source = (), chunk_id = 1 \<rparr>]"
  using create_chunks_log_chunks[of "toy_chunker 5 3" latin1
      "of_ascii ''One two. Three four five.''" "()"]
  by (simp add: ex_log_5_3)

lemma toy_encode_nonempty: "s \<noteq> [] \<Longrightarrow> toy_encode 46 s \<noteq> []"
  by (cases s) (simp_all add: is_space_def ascii_alnum_def)

lemma log_entries_ok:
  "e \<in> set (create_chunks_log self U t src) \<Longrightarrow> entry_ok self e"
  unfolding create_chunks_log_def by (rule log_loop_entries[OF loop_inv_init sentences_good])

lemma chunk_has_entry:
  "c \<in> set (create_chunks self U t src) \<Longrightarrow>
   \<exists>e \<in> set (create_chunks_log self U t src). c = chunk_of e"
proof -
  assume "c \<in> set (create_chunks self U t src)"
  then have "c \<in> set (map chunk_of (create_chunks_log self U t src))"
    by (simp only: create_chunks_log_chunks)
  then show ?thesis by auto
qed

lemma re_split_blank:
  "\<forall>p\<in>set (re_split piece skipping t). blank p \<Longrightarrow> blank piece \<and> blank t"
proof (induction t arbitrary: piece skipping)
  case Nil
  then show ?case by (simp add: blank_def)
next
  case (Cons c cs)
  show ?case
  proof (cases "is_space c \<and> skipping")
    case True
    then have "re_split piece skipping (c # cs) = re_split piece True cs"
      by simp
    with Cons.prems have "\<forall>p\<in>set (re_split piece True cs). blank p" by simp
    from Cons.IH[OF this] True show ?thesis by (simp add: blank_def)
  next
    case ns: False
    show ?thesis
    proof (cases "is_space c \<and> piece \<noteq> [] \<and> is_terminator (last piece)")
      case True
      with ns have "re_split piece skipping (c # cs) = piece # re_split [] True cs"
        by (simp only: re_split.simps simp_thms if_True if_False)
      with Cons.prems have "blank piece" and "\<forall>p\<in>set (re_split [] True cs). blank p"
        by simp_all
      from Cons.IH[OF this(2)] this(1) True show ?thesis by (simp add: blank_def)
    next
      case False
      with ns have "re_split piece skipping (c # cs) = re_split (piece @ [c]) False cs"
        by (simp only: re_split.simps simp_thms if_False)
      with Cons.prems have "\<forall>p\<in>set (re_split (piece @ [c]) False cs). blank p" by simp
      from Cons.IH[OF this] show ?thesis by (simp add: blank_def)
    qed
  qed
qed

lemma split_Nil_iff:
  "trimmed u \<Longrightarrow> split_into_sentences u = [] \<longleftrightarrow> u = []"
proof
  assume t: "trimmed u" and "split_into_sentences u = []"
  then have "\<forall>p\<in>set (re_split [] False u). blank p"
    by (auto simp: split_into_sentences_def filter_empty_conv py_strip_Nil_iff)
  then have "blank u" using re_split_blank by blast
  with t show "u = []" using trimmed_not_blank by blast
next
  assume "u = []"
  then show "split_into_sentences u = []" by (simp add: split_Nil)
qed

section \<open>The chunk sequence\<close>

text \<open>
  C1, as stated: every chunk has \<open>token_count \<le> chunk_size\<close>, except a chunk that is a
  single sentence over the budget by itself. This fails for \<open>chunk_size = 5\<close> and
  \<open>chunk_overlap = 3\<close> on the example: the second chunk is the overlap \<open>One two.\<close> followed
  by \<open>Three four five.\<close>, it has 7 tokens, it is not one of the two sentences, and the
  sentence it consumed has 4 tokens only.
\<close>

theorem budget_counterexample:
  "\<not> list_all
       (within_budget (toy_chunker 5 3)
          (split_into_sentences (clean_text latin1 (of_ascii ''One two. Three four five.''))))
       (create_chunks (toy_chunker 5 3) latin1 (of_ascii ''One two. Three four five.'') ())"
  by (simp only: ex_chunks_5_3 ex_sentences)
    (simp add: within_budget_def toy_chunker_def of_ascii_def)

text \<open>
  C1, amended: every chunk has \<open>token_count \<le> chunk_size\<close>, except a chunk that consumed
  exactly one sentence; the text of such a chunk is that sentence, preceded by the overlap
  text taken over from the previous chunk and a space when that overlap is not empty.
\<close>

theorem chunk_budget:
  "map chunk_of (create_chunks_log self U t src) = create_chunks self U t src \<and>
   (\<forall>e \<in> set (create_chunks_log self U t src).
      int (token_count (chunk_of e)) \<le> chunk_size self \<or>
      (\<exists>s \<in> set (split_into_sentences (clean_text U t)).
         consumed e = [s] \<and> text (chunk_of e) = with_overlap (overlap_of e) s))"
proof (intro conjI ballI)
  show "map chunk_of (create_chunks_log self U t src) = create_chunks self U t src"
    by (rule create_chunks_log_chunks)
next
  fix e
  assume e: "e \<in> set (create_chunks_log self U t src)"
  let ?ss = "split_into_sentences (clean_text U t)"
  from e have m: "e \<in> set (log_loop self src 0 [] [] [] ?ss)"
    by (simp add: create_chunks_log_def)
  have ok: "entry_ok self e"
    by (rule log_loop_entries[OF loop_inv_init sentences_good m])
  have b: "int (token_count (chunk_of e)) \<le> chunk_size self \<or> length (consumed e) = 1"
    by (rule log_loop_budget[OF loop_inv_init sentences_good _ m]) simp
  have sub: "set (consumed e) \<subseteq> set ?ss"
  proof -
    have "concat (map consumed (log_loop self src 0 [] [] [] ?ss)) = [] @ ?ss"
      by (rule log_loop_concat[OF loop_inv_init sentences_good])
    then have "set (concat (map consumed (log_loop self src 0 [] [] [] ?ss))) = set ?ss"
      by simp
    then have "set ?ss = (\<Union>x\<in>set (log_loop self src 0 [] [] [] ?ss). set (consumed x))"
      by (simp only: set_concat set_map image_image)
    with m show ?thesis by blast
  qed
  show "int (token_count (chunk_of e)) \<le> chunk_size self \<or>
      (\<exists>s \<in> set ?ss. consumed e = [s] \<and> text (chunk_of e) = with_overlap (overlap_of e) s)"
  proof (cases "int (token_count (chunk_of e)) \<le> chunk_size self")
    case True
    then show ?thesis by simp
  next
    case False
    with b have "length (consumed e) = 1" by simp
    then obtain s where s: "consumed e = [s]" by (cases "consumed e") auto
    with ok have "text (chunk_of e) = with_overlap (overlap_of e) s"
      by (simp add: entry_ok_def loop_inv_def)
    moreover from s sub have "s \<in> set ?ss" by simp
    ultimately show ?thesis using s by blast
  qed
qed

theorem chunk_budget_witness:
  "length (create_chunks_log (toy_chunker 5 3) latin1 (of_ascii ''One two. Three four five.'') ()) = 2 \<and>
   list_all (\<lambda>e. int (token_count (chunk_of e)) \<le> 5 \<or>
        (\<exists>s \<in> set (split_into_sentences (clean_text latin1 (of_ascii ''One two. Three four five.''))).
           consumed e = [s] \<and> text (chunk_of e) = with_overlap (overlap_of e) s))
     (create_chunks_log (toy_chunker 5 3) latin1 (of_ascii ''One two. Three four five.'') ())"
proof -
  have "chunk_size (toy_chunker 5 3) = 5" by (simp add: toy_chunker_def)
  with chunk_budget[of "toy_chunker 5 3" latin1 "of_ascii ''One two. Three four five.''" "()"]
  have "list_all (\<lambda>e. int (token_count (chunk_of e)) \<le> 5 \<or>
        (\<exists>s \<in> set (split_into_sentences (clean_text latin1 (of_ascii ''One two. Three four five.''))).
           consumed e = [s] \<and> text (chunk_of e) = with_overlap (overlap_of e) s))
     (create_chunks_log (toy_chunker 5 3) latin1 (of_ascii ''One two. Three four five.'') ())"
    by (simp only: list_all_iff) simp
  moreover have "length (create_chunks_log (toy_chunker 5 3) latin1 (of_ascii ''One two. Three four five.'') ()) = 2"
    by (simp only: ex_log_5_3) simp
  ultimately show ?thesis by simp
qed

text \<open>
  C2: the sentences newly consumed by the chunks, concatenated in chunk order, are the
  sentences of the normalized input, in order and once each; and the text of every chunk
  is its overlap text followed by the sentences it consumed, joined by single spaces.
\<close>

theorem reconstruction:
  "map chunk_of (create_chunks_log self U t src) = create_chunks self U t src \<and>
   concat (map consumed (create_chunks_log self U t src)) = split_into_sentences (clean_text U t) \<and>
   map (\<lambda>e. text (chunk_of e)) (create_chunks_log self U t src) =
     map (\<lambda>e. with_overlap (overlap_of e) (join_sp (consumed e))) (create_chunks_log self U t src)"
proof (intro conjI)
  show "map chunk_of (create_chunks_log self U t src) = create_chunks self U t src"
    by (rule create_chunks_log_chunks)
  have "concat (map consumed (log_loop self src 0 [] [] [] (split_into_sentences (clean_text U t))))
      = [] @ split_into_sentences (clean_text U t)"
    by (rule log_loop_concat[OF loop_inv_init sentences_good])
  then show "concat (map consumed (create_chunks_log self U t src)) = split_into_sentences (clean_text U t)"
    by (simp add: create_chunks_log_def)
  show "map (\<lambda>e. text (chunk_of e)) (create_chunks_log self U t src) =
     map (\<lambda>e. with_overlap (overlap_of e) (join_sp (consumed e))) (create_chunks_log self U t src)"
  proof (rule map_cong[OF refl])
    fix e assume "e \<in> set (create_chunks_log self U t src)"
    then have "entry_ok self e"
      unfolding create_chunks_log_def by (rule log_loop_entries[OF loop_inv_init sentences_good])
    then show "text (chunk_of e) = with_overlap (overlap_of e) (join_sp (consumed e))"
      by (auto simp: entry_ok_def loop_inv_def)
  qed
qed

text \<open>
  C3: for two consecutive chunks, the overlap text that the later one starts with is what
  \<open>_create_overlap\<close> computes from the sentences the earlier one consumed; when it is not
  empty (so that it is prepended), its token count is at most \<open>chunk_overlap\<close>; the bound
  holds for the empty overlap too when \<open>chunk_overlap\<close> is not negative and the tokenizer
  gives the empty text no token. With \<open>chunk_overlap = 0\<close> and a tokenizer that gives every
  non-empty text at least one token, as a byte-pair encoding does, the overlap is empty.
\<close>

theorem overlap_bound:
  assumes "(a, b) \<in> set (zip (create_chunks_log self U t src)
                              (tl (create_chunks_log self U t src)))"
  shows "overlap_of b = create_overlap self (consumed a) \<and>
         text (chunk_of b) = with_overlap (overlap_of b) (join_sp (consumed b)) \<and>
         (overlap_of b \<noteq> [] \<longrightarrow>
            int (count_tokens self (overlap_of b)) \<le> chunk_overlap self) \<and>
         (0 \<le> chunk_overlap self \<and> encoding self [] = [] \<longrightarrow>
            int (count_tokens self (overlap_of b)) \<le> chunk_overlap self) \<and>
         (chunk_overlap self = 0 \<and> (\<forall>s. s \<noteq> [] \<longrightarrow> encoding self s \<noteq> []) \<longrightarrow>
            overlap_of b = [])"
proof -
  from assms have a: "a \<in> set (create_chunks_log self U t src)"
    by (rule set_zip_leftD)
  from assms have "b \<in> set (tl (create_chunks_log self U t src))"
    by (rule set_zip_rightD)
  then have b: "b \<in> set (create_chunks_log self U t src)"
    by (rule list.set_sel(2)[rotated]) (use a in auto)
  from log_entries_ok[OF a] have ga: "\<forall>s\<in>set (consumed a). s \<noteq> [] \<and> trimmed s"
    by (auto simp: entry_ok_def loop_inv_def)
  from log_entries_ok[OF b] have tb:
    "text (chunk_of b) = with_overlap (overlap_of b) (join_sp (consumed b))"
    by (auto simp: entry_ok_def loop_inv_def)
  have ov: "overlap_of b = create_overlap self (consumed a)"
    using assms unfolding create_chunks_log_def by (rule log_loop_chain)
  note bd = create_overlap_bound[OF ga, of self]
  have z: "chunk_overlap self = 0 \<and> (\<forall>s. s \<noteq> [] \<longrightarrow> encoding self s \<noteq> []) \<longrightarrow>
      create_overlap self (consumed a) = []"
    using create_overlap_zero[OF ga, of self] by blast
  have e: "0 \<le> chunk_overlap self \<and> encoding self [] = [] \<longrightarrow>
      int (count_tokens self (create_overlap self (consumed a))) \<le> chunk_overlap self"
    using bd by (auto simp: count_tokens_def)
  from ov tb bd z e show ?thesis by auto
qed

theorem overlap_bound_witness:
  "overlap_of (create_chunks_log (toy_chunker 5 3) latin1
       (of_ascii ''One two. Three four five.'') () ! 1) = of_ascii ''One two.'' \<and>
   int (count_tokens (toy_chunker 5 3) (of_ascii ''One two.'')) \<le> 3 \<and>
   overlap_of (create_chunks_log (toy_chunker 5 0) latin1
       (of_ascii ''One two. Three four five.'') () ! 1) = []"
proof -
  let ?L = "create_chunks_log (toy_chunker 5 3) latin1 (of_ascii ''One two. Three four five.'') ()"
  let ?M = "create_chunks_log (toy_chunker 5 0) latin1 (of_ascii ''One two. Three four five.'') ()"
  have l: "(?L ! 0, ?L ! 1) \<in> set (zip ?L (tl ?L))"
    by (simp only: ex_log_5_3) simp
  have m: "(?M ! 0, ?M ! 1) \<in> set (zip ?M (tl ?M))"
    by (simp only: ex_log_5_0) simp
  have o: "overlap_of (?L ! 1) = of_ascii ''One two.''"
    by (simp only: ex_log_5_3) simp
  have c: "chunk_overlap (toy_chunker 5 3) = 3" "chunk_overlap (toy_chunker 5 0) = 0"
    and p: "\<forall>s. s \<noteq> [] \<longrightarrow> encoding (toy_chunker 5 0) s \<noteq> []"
    by (simp_all add: toy_chunker_def toy_encode_nonempty)
  have ne: "of_ascii ''One two.'' \<noteq> []" by (simp add: of_ascii_def)
  from overlap_bound[OF l]
  have "overlap_of (?L ! 1) \<noteq> [] \<longrightarrow>
      int (count_tokens (toy_chunker 5 3) (overlap_of (?L ! 1))) \<le> chunk_overlap (toy_chunker 5 3)"
    by blast
  then have 1: "int (count_tokens (toy_chunker 5 3) (of_ascii ''One two.'')) \<le> 3"
    unfolding o c using ne by blast
  from overlap_bound[OF m] c p have 2: "overlap_of (?M ! 1) = []" by blast
  from o 1 2 show ?thesis by simp
qed

text \<open>
  C4: when the normalized text splits into exactly one sentence, and that sentence has
  more tokens than \<open>chunk_size\<close>, \<open>create_chunks\<close> returns exactly one chunk: the whole
  sentence, with its own token count.
\<close>

theorem single_oversized_sentence:
  assumes "split_into_sentences (clean_text U t) = [s]"
    and "chunk_size self < int (count_tokens self s)"
  shows "create_chunks self U t src =
           [\<lparr> text = s, token_count = count_tokens self s, source = src, chunk_id = 0 \<rparr>]"
proof -
  from assms(1) split_sentences_good[of s "clean_text U t"]
  have "s \<noteq> []" and "trimmed s" by simp_all
  then have "py_strip s = s" by (simp add: trimmed_strip)
  with \<open>s \<noteq> []\<close> assms(1) show ?thesis
    by (simp add: create_chunks_def chunk_sentences_def chunk_step_def over_budget_def
        potential_chunk_def finish_def new_chunk_def)
qed

theorem single_oversized_sentence_witness:
  "create_chunks (toy_chunker 3 1) latin1 (of_ascii '' One two three four five.'') () =
     [\<lparr> text = of_ascii ''One two three four five.'', token_count = 6, source = (),
        chunk_id = 0 \<rparr>]"
proof -
  have 1: "split_into_sentences (clean_text latin1 (of_ascii '' One two three four five.''))
            = [of_ascii ''One two three four five.'']"
    by (simp add: eval_defs)
  have 2: "count_tokens (toy_chunker 3 1) (of_ascii ''One two three four five.'') = 6"
    by (simp add: eval_defs)
  then have 3: "chunk_size (toy_chunker 3 1)
      < int (count_tokens (toy_chunker 3 1) (of_ascii ''One two three four five.''))"
    by (simp add: toy_chunker_def)
  from single_oversized_sentence[OF 1 3, of "()"] 2 show ?thesis by simp
qed

text \<open>
  C5: in every chunk that \<open>create_chunks\<close> returns, the stored \<open>token_count\<close> is the token
  count of the stored \<open>text\<close>. (The code counts the tokens of \<open>current_chunk\<close> and stores
  \<open>current_chunk.strip()\<close>; the two agree because \<open>current_chunk\<close> never starts or ends
  with whitespace.)
\<close>

theorem token_count_of_text:
  "c \<in> set (create_chunks self U t src) \<Longrightarrow> token_count c = count_tokens self (text c)"
  using chunk_has_entry[of c self U t src] log_entries_ok[of _ self U t src]
  by (auto simp: entry_ok_def)

theorem token_count_of_text_witness:
  "list_all (\<lambda>c. token_count c = count_tokens (toy_chunker 5 3) (text c))
     (create_chunks (toy_chunker 5 3) latin1 (of_ascii ''One two. Three four five.'') ()) \<and>
   length (create_chunks (toy_chunker 5 3) latin1 (of_ascii ''One two. Three four five.'') ()) = 2"
proof -
  have "length (create_chunks (toy_chunker 5 3) latin1 (of_ascii ''One two. Three four five.'') ()) = 2"
    by (simp only: ex_chunks_5_3) simp
  moreover have "\<forall>c\<in>set (create_chunks (toy_chunker 5 3) latin1
        (of_ascii ''One two. Three four five.'') ()).
        token_count c = count_tokens (toy_chunker 5 3) (text c)"
    by (rule ballI) (rule token_count_of_text)
  then have "list_all (\<lambda>c. token_count c = count_tokens (toy_chunker 5 3) (text c))
     (create_chunks (toy_chunker 5 3) latin1 (of_ascii ''One two. Three four five.'') ())"
    by (simp only: list_all_iff)
  ultimately show ?thesis by blast
qed

text \<open>
  C10: no chunk that \<open>create_chunks\<close> returns has an empty or whitespace-only text, for
  any tokenizer, \<open>chunk_size\<close> and \<open>chunk_overlap\<close>.
\<close>

theorem chunk_text_not_blank:
  "c \<in> set (create_chunks self U t src) \<Longrightarrow> text c \<noteq> [] \<and> \<not> blank (text c)"
proof -
  assume "c \<in> set (create_chunks self U t src)"
  then obtain e where "e \<in> set (create_chunks_log self U t src)" and c: "c = chunk_of e"
    using chunk_has_entry[of c self U t src] by blast
  then have "entry_ok self e" by (simp add: log_entries_ok)
  then have "loop_inv (overlap_of e) (text c) (consumed e)" and "consumed e \<noteq> []"
    by (simp_all add: entry_ok_def c)
  from loop_inv_current[OF this(1)] this(2) show ?thesis
    by (simp add: trimmed_not_blank)
qed

theorem chunk_text_not_blank_witness:
  "list_all (\<lambda>c. text c \<noteq> [] \<and> \<not> blank (text c))
     (create_chunks (toy_chunker 5 0) latin1 (of_ascii ''One two. Three four five.'') ()) \<and>
   create_chunks (toy_chunker 5 0) latin1 (of_ascii ''One two. Three four five.'') () \<noteq> []"
proof -
  have "map chunk_of (create_chunks_log (toy_chunker 5 0) latin1
           (of_ascii ''One two. Three four five.'') ()) \<noteq> []"
    by (simp only: ex_log_5_0) simp
  then have "create_chunks (toy_chunker 5 0) latin1 (of_ascii ''One two. Three four five.'') () \<noteq> []"
    unfolding create_chunks_log_chunks .
  moreover have "\<forall>c\<in>set (create_chunks (toy_chunker 5 0) latin1
        (of_ascii ''One two. Three four five.'') ()). text c \<noteq> [] \<and> \<not> blank (text c)"
    by (rule ballI) (rule chunk_text_not_blank)
  then have "list_all (\<lambda>c. text c \<noteq> [] \<and> \<not> blank (text c))
     (create_chunks (toy_chunker 5 0) latin1 (of_ascii ''One two. Three four five.'') ())"
    by (simp only: list_all_iff)
  ultimately show ?thesis by blast
qed

text \<open>
  C6: \<open>create_chunks\<close> returns the empty sequence exactly when the normalized text has no
  sentence left after the whitespace-only ones are dropped, which is exactly when the
  normalized text is empty; in particular it returns the empty sequence for an empty or
  whitespace-only input.
\<close>

theorem empty_iff_no_sentences:
  "(create_chunks self U t src = [] \<longleftrightarrow> split_into_sentences (clean_text U t) = []) \<and>
   (create_chunks self U t src = [] \<longleftrightarrow> clean_text U t = []) \<and>
   (blank t \<longrightarrow> create_chunks self U t src = [])"
proof -
  let ?ss = "split_into_sentences (clean_text U t)"
  have "log_loop self src 0 [] [] [] ?ss = [] \<longleftrightarrow> [] = ([]::pystr list) \<and> ?ss = []"
    by (rule log_loop_Nil_iff[OF loop_inv_init sentences_good])
  then have "create_chunks_log self U t src = [] \<longleftrightarrow> ?ss = []"
    by (simp add: create_chunks_log_def)
  moreover have "create_chunks self U t src = [] \<longleftrightarrow> create_chunks_log self U t src = []"
    using create_chunks_log_chunks[of self U t src] by (metis map_is_Nil_conv)
  ultimately have 1: "create_chunks self U t src = [] \<longleftrightarrow> ?ss = []" by simp
  have 2: "?ss = [] \<longleftrightarrow> clean_text U t = []"
    by (rule split_Nil_iff[OF clean_text_trimmed])
  have "blank t \<longrightarrow> ?ss = []" by (simp add: clean_text_blank split_Nil)
  with 1 2 show ?thesis by simp
qed

theorem empty_iff_no_sentences_witness:
  "blank [32, 10, 9, 32] \<and> create_chunks (toy_chunker 5 3) latin1 [32, 10, 9, 32] () = [] \<and>
   create_chunks (toy_chunker 5 3) latin1 [] () = []"
proof -
  have b: "blank [32, 10, 9, 32]" "blank []" by (simp_all add: blank_def is_space_def)
  from empty_iff_no_sentences[of "toy_chunker 5 3" latin1 "[32, 10, 9, 32]" "()"]
       empty_iff_no_sentences[of "toy_chunker 5 3" latin1 "[]" "()"] b
  show ?thesis by blast
qed

section \<open>Normalization of quotes and of whitespace\<close>

text \<open>
  C7. The claim: every curly double quote of the input appears in the output of
  \<open>clean_text\<close> as a straight double quote, every curly single quote as a straight
  apostrophe. The code does not do this. On the six characters U+201C \<open>i t\<close> U+2019 \<open>s\<close>
  U+201D the substitution of OCR artifacts, which runs before the two quote substitutions,
  turns each curly quote into a space, and the result is \<open>it s\<close> with no quote at all.
\<close>

theorem clean_text_loses_curly_quotes:
  "clean_text latin1 [8220, 105, 116, 8217, 115, 8221] = of_ascii ''it s''"
  by (simp add: eval_defs)

text \<open>
  C8. The claim: the output of \<open>clean_text\<close> never holds two adjacent whitespace
  characters, also when character replacement introduces new spaces. The code does not
  do this: the whitespace runs are collapsed by the first substitution only, and the
  artifact substitution that runs after it writes a space for every character it
  replaces. On \<open>a@@b\<close> both \<open>@\<close> become spaces and the output is \<open>a\<close>, two spaces, \<open>b\<close>;
  on \<open>see (p. 3) now\<close> each parenthesis becomes a space next to the space that was there.
\<close>

theorem clean_text_leaves_ws_run:
  "clean_text latin1 (of_ascii ''a@@b'') = of_ascii ''a  b'' \<and>
   \<not> no_ws_run (clean_text latin1 (of_ascii ''a@@b'')) \<and>
   clean_text latin1 (of_ascii ''see (p. 3) now'') = of_ascii ''see  p. 3  now'' \<and>
   \<not> no_ws_run (clean_text latin1 (of_ascii ''see (p. 3) now''))"
  by (simp add: eval_defs)

text \<open>
  When the artifact substitution replaces nothing, because every character of the input
  is a word character, whitespace or one of \<open>. , ; : ! ? - ' "\<close>, the output has no two
  adjacent whitespace characters.
\<close>

lemma clean_text_no_ws_run:
  assumes "\<forall>c\<in>set t. allowed U c"
  shows "no_ws_run (clean_text U t)"
proof -
  let ?t1 = "sub_ws False t"
  let ?t2 = "sub_page_numbers U ?t1"
  have 1: "no_ws_run ?t1" using sub_ws_no_run by blast
  have 2: "no_ws_run ?t2" using 1 by (simp add: sub_page_numbers_def)
  have "set ?t2 \<subseteq> insert 32 (set t)"
    using sub_ws_chars[of False t] by (auto simp: sub_page_numbers_def)
  with assms have "\<forall>c\<in>set ?t2. allowed U c" using allowed_32 by auto
  then have "sub_artifacts U ?t2 = ?t2" by (rule sub_artifacts_id)
  then have "clean_text U t = py_strip ?t2"
    by (simp add: clean_text_def sub_quotes_id)
  with 2 show ?thesis by (simp add: no_ws_run_strip)
qed

section \<open>Batches of embeddings\<close>

lemma call_of_multiple: "batch_size dvd i \<Longrightarrow> call_of batch_size i = i"
  by (simp add: call_of_def)

lemma batch_loop_step:
  "0 < batch_size \<Longrightarrow> i < length texts \<Longrightarrow>
   batch_loop create texts batch_size i embeddings =
     batch_loop create texts batch_size (i + batch_size)
       (embeddings @
          (case create i (take batch_size (drop i texts)) of
             Some batch_embeddings \<Rightarrow> batch_embeddings
           | None \<Rightarrow> map (\<lambda>_. []) (take batch_size (drop i texts))))"
  by (simp add: batch_loop.simps[of create texts batch_size i embeddings] Let_def)

lemma batch_loop_stop:
  "\<not> i < length texts \<Longrightarrow> batch_loop create texts batch_size i embeddings = embeddings"
  by (simp add: batch_loop.simps[of create texts batch_size i embeddings])

lemma answered_length:
  assumes "\<forall>k<length texts. \<forall>es.
             create (call_of batch_size k) (batch_of batch_size texts k) = Some es \<longrightarrow>
             length es = length (batch_of batch_size texts k)"
    and "batch_size dvd i" and "i < length texts"
  shows "length (case create i (take batch_size (drop i texts)) of
                   Some batch_embeddings \<Rightarrow> batch_embeddings
                 | None \<Rightarrow> map (\<lambda>_. []) (take batch_size (drop i texts)))
         = length (take batch_size (drop i texts))"
proof (cases "create i (take batch_size (drop i texts))")
  case None
  then show ?thesis by simp
next
  case (Some a)
  from assms(2) have "call_of batch_size i = i" by (rule call_of_multiple)
  then have "batch_of batch_size texts i = take batch_size (drop i texts)"
    by (simp add: batch_of_def)
  with assms(1,3) Some \<open>call_of batch_size i = i\<close>
  have "length a = length (take batch_size (drop i texts))" by metis
  with Some show ?thesis by (simp only: option.case)
qed

lemma batch_loop_length:
  "\<forall>k<length texts. \<forall>es.
      create (call_of batch_size k) (batch_of batch_size texts k) = Some es \<longrightarrow>
      length es = length (batch_of batch_size texts k) \<Longrightarrow>
   0 < batch_size \<Longrightarrow> batch_size dvd i \<Longrightarrow>
   length (batch_loop create texts batch_size i embeddings) =
     length embeddings + (length texts - i)"
proof (induction create texts batch_size i embeddings rule: batch_loop.induct)
  case (1 create texts batch_size i embeddings)
  show ?case
  proof (cases "i < length texts")
    case False
    then show ?thesis by (simp add: batch_loop_stop)
  next
    case True
    let ?batch = "take batch_size (drop i texts)"
    let ?r = "case create i ?batch of Some batch_embeddings \<Rightarrow> batch_embeddings
              | None \<Rightarrow> map (\<lambda>_. []) ?batch"
    have lr: "length ?r = length ?batch"
      by (rule answered_length[OF 1(2) 1(4) True])
    have d: "batch_size dvd i + batch_size" using 1(4) by simp
    have "length (batch_loop create texts batch_size (i + batch_size) (embeddings @ ?r))
        = length (embeddings @ ?r) + (length texts - (i + batch_size))"
      using "1.IH"[OF _ refl 1(2,3) d] True 1(3) by simp
    then show ?thesis using lr True batch_loop_step[OF 1(3) True, of create embeddings]
      by simp
  qed
qed

lemma in_batch_div_mod:
  fixes k :: nat
  assumes "m dvd i" and "i \<le> k" and "k < i + m"
  shows "k div m * m = i \<and> k mod m = k - i"
proof -
  from assms(1) obtain j where j: "i = m * j" by (rule dvdE)
  from assms(2,3) have m: "0 < m" by simp
  define r where "r = k - i"
  with assms have k: "k = m * j + r" and r: "r < m" using j by simp_all
  from k r m have "k div m = j" "k mod m = r" by simp_all
  with j r_def show ?thesis by simp
qed

lemma batch_loop_nth:
  "\<forall>k<length texts. \<forall>es.
      create (call_of batch_size k) (batch_of batch_size texts k) = Some es \<longrightarrow>
      length es = length (batch_of batch_size texts k) \<Longrightarrow>
   0 < batch_size \<Longrightarrow> batch_size dvd i \<Longrightarrow> length embeddings = min i (length texts) \<Longrightarrow>
   k < length texts \<Longrightarrow>
   batch_loop create texts batch_size i embeddings ! k =
     (if k < i then embeddings ! k
      else (case create (call_of batch_size k) (batch_of batch_size texts k) of
              Some es \<Rightarrow> es ! (k mod batch_size) | None \<Rightarrow> []))"
proof (induction create texts batch_size i embeddings rule: batch_loop.induct)
  case (1 create texts batch_size i embeddings)
  show ?case
  proof (cases "i < length texts")
    case False
    with 1(6) show ?thesis by (simp add: batch_loop_stop)
  next
    case True
    let ?batch = "take batch_size (drop i texts)"
    let ?r = "case create i ?batch of Some batch_embeddings \<Rightarrow> batch_embeddings
              | None \<Rightarrow> map (\<lambda>_. []) ?batch"
    have lr: "length ?r = length ?batch"
      by (rule answered_length[OF 1(2) 1(4) True])
    have lb: "length ?batch = min batch_size (length texts - i)" by simp
    have le: "length embeddings = i" using True 1(5) by simp
    have d: "batch_size dvd i + batch_size" using 1(4) by simp
    note step = batch_loop_step[OF 1(3) True, of create embeddings]
    have len': "length (embeddings @ ?r) = min (i + batch_size) (length texts)"
      using lr lb le True by auto
    have ih: "batch_loop create texts batch_size (i + batch_size) (embeddings @ ?r) ! k =
           (if k < i + batch_size then (embeddings @ ?r) ! k
            else (case create (call_of batch_size k) (batch_of batch_size texts k) of
                    Some es \<Rightarrow> es ! (k mod batch_size) | None \<Rightarrow> []))"
      using "1.IH"[OF _ refl 1(2,3) d len' 1(6)] True 1(3) by simp
    show ?thesis
    proof (cases "k < i")
      case True
      with step ih le show ?thesis by (simp add: nth_append)
    next
      case False
      show ?thesis
      proof (cases "k < i + batch_size")
        case False
        with step ih \<open>\<not> k < i\<close> show ?thesis by simp
      next
        case kb: True
        from in_batch_div_mod[OF 1(4) _ kb] False
        have dm: "k div batch_size * batch_size = i" "k mod batch_size = k - i" by simp_all
        then have cb: "call_of batch_size k = i" "batch_of batch_size texts k = ?batch"
          by (simp_all add: call_of_def batch_of_def)
        have kl: "k - i < length ?batch" using kb False 1(6) by auto
        have "(embeddings @ ?r) ! k = ?r ! (k - i)"
          using le False by (simp add: nth_append)
        also have "\<dots> = (case create i ?batch of
                           Some es \<Rightarrow> es ! (k mod batch_size) | None \<Rightarrow> [])"
          using kl dm(2) by (cases "create i ?batch") simp_all
        finally show ?thesis using step ih kb False cb by simp
      qed
    qed
  qed
qed

lemma generate_embeddings_batch_zero:
  "generate_embeddings_batch create texts 0 = Inl ValueError"
  by (simp add: generate_embeddings_batch_def)

lemma generate_embeddings_batch_negative:
  "batch_size < 0 \<Longrightarrow> generate_embeddings_batch create texts batch_size = Inr []"
  by (simp add: generate_embeddings_batch_def)

text \<open>
  C9, as stated: for every input the returned list is as long as the list of texts. This
  fails in three ways. With \<open>batch_size = -1\<close> the range is empty and two texts give the
  empty list; with \<open>batch_size = 0\<close> the call raises \<open>ValueError\<close>; and when the service
  answers a batch of three texts with one embedding, the result has one item.
\<close>

theorem embeddings_length_counterexample:
  "generate_embeddings_batch (\<lambda>i b. Some (map (\<lambda>t. [length t]) b))
     [of_ascii ''a'', of_ascii ''bc''] (- 1) = Inr [] \<and>
   generate_embeddings_batch (\<lambda>i b. Some (map (\<lambda>t. [length t]) b))
     [of_ascii ''a'', of_ascii ''bc''] 0 = Inl ValueError \<and>
   generate_embeddings_batch (\<lambda>i b. Some [[1::nat]])
     [of_ascii ''a'', of_ascii ''b'', of_ascii ''c''] 100 = Inr [[1]]"
  by (simp add: generate_embeddings_batch_def of_ascii_def batch_loop_step batch_loop_stop)

text \<open>
  C9, amended: for a positive \<open>batch_size\<close>, and when every call of the loop that the
  service answers yields one embedding per text of its batch, \<open>generate_embeddings_batch\<close>
  returns a list as long as the list of texts; the item at position \<open>k\<close> is the embedding
  the service gave for text \<open>k\<close>, or the empty list when the call for the batch of text
  \<open>k\<close> raised.
\<close>

theorem embeddings_aligned:
  assumes "0 < batch_size"
    and "\<forall>k<length texts. \<forall>es.
           create (call_of (nat batch_size) k) (batch_of (nat batch_size) texts k) = Some es \<longrightarrow>
           length es = length (batch_of (nat batch_size) texts k)"
  shows "\<exists>embeddings.
           generate_embeddings_batch create texts batch_size = Inr embeddings \<and>
           length embeddings = length texts \<and>
           (\<forall>k < length texts.
              embeddings ! k =
                (case create (call_of (nat batch_size) k) (batch_of (nat batch_size) texts k) of
                   Some es \<Rightarrow> es ! (k mod nat batch_size)
                 | None \<Rightarrow> []))"
proof -
  let ?e = "batch_loop create texts (nat batch_size) 0 []"
  from assms(1) have p: "0 < nat batch_size" by simp
  have g: "generate_embeddings_batch create texts batch_size = Inr ?e"
    using assms(1) by (simp add: generate_embeddings_batch_def)
  have l: "length ?e = length texts"
    using batch_loop_length[OF assms(2) p dvd_0_right, of "[]"] by simp
  have n: "\<forall>k < length texts. ?e ! k =
                (case create (call_of (nat batch_size) k) (batch_of (nat batch_size) texts k) of
                   Some es \<Rightarrow> es ! (k mod nat batch_size)
                 | None \<Rightarrow> [])"
  proof (intro allI impI)
    fix k assume k: "k < length texts"
    have "length ([]::'a list list) = min 0 (length texts)" by simp
    from batch_loop_nth[OF assms(2) p dvd_0_right this k] show "?e ! k =
                (case create (call_of (nat batch_size) k) (batch_of (nat batch_size) texts k) of
                   Some es \<Rightarrow> es ! (k mod nat batch_size)
                 | None \<Rightarrow> [])" by simp
  qed
  from g l n show ?thesis by blast
qed

theorem embeddings_aligned_witness:
  "generate_embeddings_batch
     (\<lambda>i b. if i = 0 then None else Some (map (\<lambda>t. [length t]) b))
     [of_ascii ''a'', [], of_ascii ''bc''] 2 = Inr [[], [], [2]]"
proof -
  let ?c = "\<lambda>(i::nat) (b::pystr list). if i = 0 then None else Some (map (\<lambda>t. [length t]) b)"
  let ?t = "[of_ascii ''a'', [], of_ascii ''bc'']"
  have h: "\<forall>k<length ?t. \<forall>es. ?c (call_of (nat 2) k) (batch_of (nat 2) ?t k) = Some es \<longrightarrow>
             length es = length (batch_of (nat 2) ?t k)"
    by auto
  from embeddings_aligned[OF _ h]
  obtain e where e: "generate_embeddings_batch ?c ?t 2 = Inr e"
    and l: "length e = 3"
    and n: "\<forall>k<3. e ! k = (case ?c (call_of 2 k) (batch_of 2 ?t k) of
                   Some es \<Rightarrow> es ! (k mod 2) | None \<Rightarrow> [])"
    by auto
  from n have "e ! 0 = []" "e ! 1 = []" "e ! 2 = [2]"
    by (simp_all add: of_ascii_def call_of_def batch_of_def)
  moreover from l obtain a b c where "e = [a, b, c]"
    by (auto simp: length_Suc_conv numeral_3_eq_3)
  ultimately have "e = [[], [], [2]]" by simp
  with e show ?thesis by simp
qed

end
